theory Spec2Isabelle
  imports Main
begin

section \<open>Values, exceptions and characters\<close>

text \<open>
  The checkers of \<^verbatim>\<open>src/src/instructions.py\<close> are methods \<^verbatim>\<open>check_following(value, **kwargs)\<close>.
  A call either raises or returns a Python value. Exceptions are values of \<open>exn\<close>, and a
  call's outcome is \<open>exn + 'a\<close> with \<open>Inl\<close> the raised exception.
  The comparator checkers can fall off the end of their \<^verbatim>\<open>if/elif\<close> chain, which in Python
  returns \<^verbatim>\<open>None\<close>; their returned value is therefore a \<open>pyval\<close>.

  Strings are HOL strings: lists of 8-bit characters, read as the code points 0 to 255.
\<close>

datatype exn =
    KeyError string
  | IndexError
  | ValueError
  | LangDetectException
  | RuntimeError
  | OtherException

datatype pyval = PyBool bool | PyNone

abbreviation newline :: char where "newline \<equiv> CHR 0x0A"
abbreviation dquote :: char where "dquote \<equiv> CHR 0x22"
abbreviation squote :: char where "squote \<equiv> CHR 0x27"

text \<open>\<^verbatim>\<open>str.isspace\<close> on one character, which is also the class \<^verbatim>\<open>\s\<close> of \<^verbatim>\<open>re\<close> on \<^verbatim>\<open>str\<close>
  patterns: the code points 9 to 13, 28 to 32, 133 and 160.\<close>

definition whitespace_chars :: "char list" where
  "whitespace_chars =
     [CHR 0x09, CHR 0x0A, CHR 0x0B, CHR 0x0C, CHR 0x0D,
      CHR 0x1C, CHR 0x1D, CHR 0x1E, CHR 0x1F, CHR 0x20, CHR 0x85, CHR 0xA0]"

definition isspace :: "char \<Rightarrow> bool" where
  "isspace c = (c \<in> set whitespace_chars)"

text \<open>\<^verbatim>\<open>str.lower\<close> on one character: A to Z and the Latin-1 capitals (192 to 222 without
  the multiplication sign 215) move up by 32.\<close>

definition lower_char :: "char \<Rightarrow> char" where
  "lower_char c =
     (let n = (of_char c :: nat) in
      if 65 \<le> n \<and> n \<le> 90 then char_of (n + 32)
      else if 192 \<le> n \<and> n \<le> 214 then char_of (n + 32)
      else if 216 \<le> n \<and> n \<le> 222 then char_of (n + 32)
      else c)"

definition lower :: "string \<Rightarrow> string" where
  "lower s = map lower_char s"

text \<open>The cased characters of \<^verbatim>\<open>str.isupper\<close> and \<^verbatim>\<open>str.islower\<close>.\<close>

definition is_upper_char :: "char \<Rightarrow> bool" where
  "is_upper_char c =
     (let n = (of_char c :: nat) in
      (65 \<le> n \<and> n \<le> 90) \<or> (192 \<le> n \<and> n \<le> 214) \<or> (216 \<le> n \<and> n \<le> 222))"

definition is_lower_char :: "char \<Rightarrow> bool" where
  "is_lower_char c =
     (let n = (of_char c :: nat) in
      (97 \<le> n \<and> n \<le> 122) \<or> n = 170 \<or> n = 181 \<or> n = 186
      \<or> (223 \<le> n \<and> n \<le> 246) \<or> (248 \<le> n \<and> n \<le> 255))"

text \<open>\<^verbatim>\<open>value.isupper()\<close>: at least one cased character and no lowercase one;
  \<^verbatim>\<open>value.islower()\<close>: at least one cased character and no uppercase one.\<close>

definition isupper :: "string \<Rightarrow> bool" where
  "isupper s = (list_ex is_upper_char s \<and> list_all (\<lambda>c. \<not> is_lower_char c) s)"

definition islower :: "string \<Rightarrow> bool" where
  "islower s = (list_ex is_lower_char s \<and> list_all (\<lambda>c. \<not> is_upper_char c) s)"

text \<open>\<^verbatim>\<open>s.strip()\<close>, \<^verbatim>\<open>s.lstrip(chars)\<close>, \<^verbatim>\<open>s.strip(chars)\<close> and \<^verbatim>\<open>s.endswith(t)\<close>.\<close>

definition strip :: "string \<Rightarrow> string" where
  "strip s = rev (dropWhile isspace (rev (dropWhile isspace s)))"

definition lstrip_chars :: "char list \<Rightarrow> string \<Rightarrow> string" where
  "lstrip_chars cs s = dropWhile (\<lambda>c. c \<in> set cs) s"


definition endswith :: "string \<Rightarrow> string \<Rightarrow> bool" where
  "endswith s t = (length t \<le> length s \<and> drop (length s - length t) s = t)"


section \<open>Comparator checkers\<close>

text \<open>
  Each comparator checker measures the response and then runs the same four-way
  \<^verbatim>\<open>if/elif\<close> chain on \<^verbatim>\<open>self._comparison_relation\<close>, with no \<^verbatim>\<open>else\<close> branch.
  \<^verbatim>\<open>instructions_util.count_sentences\<close>, \<^verbatim>\<open>instructions_util.count_words\<close> and
  \<^verbatim>\<open>nltk.word_tokenize\<close> are not part of the source under study, and the occurrence count of
  \<^verbatim>\<open>KeywordFrequencyChecker\<close> is \<^verbatim>\<open>len(re.findall(...))\<close> of the regular-expression
  library; each is a parameter of its checker.
\<close>

definition COMPARISON_RELATION :: "string list" where
  "COMPARISON_RELATION = [''at most'', ''at least'', ''around'', ''less than'']"

definition NumberOfSentences_check ::
    "(string \<Rightarrow> int) \<Rightarrow> string \<Rightarrow> int \<Rightarrow> string \<Rightarrow> exn + pyval" where
  "NumberOfSentences_check count_sentences val num_sentences_threshold relation =
     (let num_sentences = count_sentences val in
      if relation = ''at most'' then Inr (PyBool (num_sentences \<le> num_sentences_threshold))
      else if relation = ''at least'' then Inr (PyBool (num_sentences \<ge> num_sentences_threshold))
      else if relation = ''around'' then
        Inr (PyBool (\<bar>num_sentences - num_sentences_threshold\<bar> \<le> 2))
      else if relation = ''less than'' then Inr (PyBool (num_sentences < num_sentences_threshold))
      else Inr PyNone)"

definition KeywordFrequencyChecker_check ::
    "(string \<Rightarrow> string \<Rightarrow> int) \<Rightarrow> string \<Rightarrow> string \<Rightarrow> int \<Rightarrow> string \<Rightarrow> exn + pyval" where
  "KeywordFrequencyChecker_check count_matches val keyword frequency relation =
     (let actual_occurrences = count_matches (strip keyword) val in
      if relation = ''at most'' then Inr (PyBool (actual_occurrences \<le> frequency))
      else if relation = ''at least'' then Inr (PyBool (actual_occurrences \<ge> frequency))
      else if relation = ''around'' then Inr (PyBool (\<bar>actual_occurrences - frequency\<bar> \<le> 5))
      else if relation = ''less than'' then Inr (PyBool (actual_occurrences < frequency))
      else Inr PyNone)"

definition NumberOfWords_check ::
    "(string \<Rightarrow> int) \<Rightarrow> string \<Rightarrow> int \<Rightarrow> string \<Rightarrow> exn + pyval" where
  "NumberOfWords_check count_words val num_words_threshold relation =
     (let num_words = count_words val in
      if relation = ''at most'' then Inr (PyBool (num_words \<le> num_words_threshold))
      else if relation = ''at least'' then Inr (PyBool (num_words \<ge> num_words_threshold))
      else if relation = ''around'' then Inr (PyBool (\<bar>num_words - num_words_threshold\<bar> \<le> 25))
      else if relation = ''less than'' then Inr (PyBool (num_words < num_words_threshold))
      else Inr PyNone)"

text \<open>\<^verbatim>\<open>collections.Counter(value)[letter]\<close>: the number of characters of the lowered response
  that equal the string \<^verbatim>\<open>letter\<close>; a string of any other length than one is counted 0 times.\<close>

definition counter_lookup :: "string \<Rightarrow> string \<Rightarrow> int" where
  "counter_lookup s letter = int (length (filter (\<lambda>c. [c] = letter) s))"

definition LetterFrequencyChecker_check ::
    "string \<Rightarrow> string \<Rightarrow> int \<Rightarrow> string \<Rightarrow> exn + pyval" where
  "LetterFrequencyChecker_check val letter frequency relation =
     (let letter' = lower (strip letter);
          letters = counter_lookup (lower val) in
      if relation = ''at most'' then Inr (PyBool (letters letter' \<le> frequency))
      else if relation = ''at least'' then Inr (PyBool (letters letter' \<ge> frequency))
      else if relation = ''around'' then Inr (PyBool (\<bar>letters letter' - frequency\<bar> \<le> 5))
      else if relation = ''less than'' then Inr (PyBool (letters letter' < frequency))
      else Inr PyNone)"

definition CapitalWordFrequencyChecker_check ::
    "(string \<Rightarrow> string list) \<Rightarrow> string \<Rightarrow> int \<Rightarrow> string \<Rightarrow> exn + pyval" where
  "CapitalWordFrequencyChecker_check word_tokenize val frequency relation =
     (let words = word_tokenize val;
          capital_words = int (length (filter isupper words)) in
      if relation = ''at most'' then Inr (PyBool (capital_words \<le> frequency))
      else if relation = ''at least'' then Inr (PyBool (capital_words \<ge> frequency))
      else if relation = ''around'' then Inr (PyBool (\<bar>capital_words - frequency\<bar> \<le> 5))
      else if relation = ''less than'' then Inr (PyBool (capital_words < frequency))
      else Inr PyNone)"


section \<open>Placeholders\<close>

text \<open>
  \<^verbatim>\<open>PlaceholderChecker\<close> counts \<^verbatim>\<open>re.findall(r"\[.*?\]", value)\<close>. After an opening bracket the
  lazy \<^verbatim>\<open>.*?\<close> takes as few characters as possible, none of them a newline, up to the first
  closing bracket; \<open>lazy_until_bracket\<close> returns the characters taken and the text after the
  closing bracket, or \<open>None\<close> when a newline or the end of the text comes first.
  \<open>findall_placeholders\<close> scans from the left and resumes after each match.
\<close>

fun lazy_until_bracket :: "string \<Rightarrow> (string \<times> string) option" where
  "lazy_until_bracket [] = None"
| "lazy_until_bracket (c # cs) =
     (if c = CHR '']'' then Some ([], cs)
      else if c = newline then None
      else (case lazy_until_bracket cs of
              None \<Rightarrow> None
            | Some (m, rest) \<Rightarrow> Some (c # m, rest)))"

lemma lazy_until_bracket_shorter:
  "lazy_until_bracket cs = Some (m, rest) \<Longrightarrow> length rest < length cs"
  by (induction cs arbitrary: m rest) (auto split: if_splits option.splits)

function findall_placeholders :: "string \<Rightarrow> string list" where
  "findall_placeholders [] = []"
| "findall_placeholders (c # cs) =
     (if c = CHR ''['' then
        (case lazy_until_bracket cs of
           Some (m, rest) \<Rightarrow> (c # m @ '']'') # findall_placeholders rest
         | None \<Rightarrow> findall_placeholders cs)
      else findall_placeholders cs)"
  by pat_completeness auto
termination
  by (relation "measure length") (auto dest: lazy_until_bracket_shorter)

definition PlaceholderChecker_check :: "string \<Rightarrow> int \<Rightarrow> exn + bool" where
  "PlaceholderChecker_check val num_placeholders_threshold =
     (let placeholders = findall_placeholders val;
          num_placeholders = int (length placeholders) in
      Inr (num_placeholders \<ge> num_placeholders_threshold))"


section \<open>Paragraphs separated by the markdown divider\<close>

text \<open>
  \<^verbatim>\<open>ParagraphChecker\<close> splits with \<^verbatim>\<open>re.split(r"\s*\*\*\*\s*", value)\<close>.
  \<open>match_divider\<close> matches the pattern at the start of a text and returns what follows the
  match. Both \<^verbatim>\<open>\s*\<close> are greedy; backtracking the first one cannot help, because the
  character after a shorter run of whitespace is whitespace and not an asterisk.
  \<open>re_split_divider\<close> looks for the leftmost match from each position: a match closes the
  current piece and the scan resumes after it, otherwise the character joins the piece.
\<close>

definition match_divider :: "string \<Rightarrow> string option" where
  "match_divider s =
     (let s1 = dropWhile isspace s in
      if take 3 s1 = ''***'' then Some (dropWhile isspace (drop 3 s1)) else None)"

lemma match_divider_shorter:
  "match_divider s = Some rest \<Longrightarrow> length rest < length s"
proof -
  assume m: "match_divider s = Some rest"
  let ?s1 = "dropWhile isspace s"
  from m have t: "take 3 ?s1 = ''***''" and r: "rest = dropWhile isspace (drop 3 ?s1)"
    by (auto simp: match_divider_def Let_def split: if_splits)
  from t have "length (take 3 ?s1) = 3" by simp
  then have "3 \<le> length ?s1" by simp
  moreover have "length rest \<le> length (drop 3 ?s1)"
    unfolding r by (rule length_dropWhile_le)
  moreover have "length ?s1 \<le> length s"
    by (rule length_dropWhile_le)
  ultimately show ?thesis by simp
qed

function re_split_divider :: "string \<Rightarrow> string list" where
  "re_split_divider [] = [[]]"
| "re_split_divider (c # cs) =
     (case match_divider (c # cs) of
        Some rest \<Rightarrow> [] # re_split_divider rest
      | None \<Rightarrow> (let r = re_split_divider cs in (c # hd r) # tl r))"
  by pat_completeness auto
termination
  by (relation "measure length") (auto dest: match_divider_shorter)

text \<open>The loop over \<^verbatim>\<open>enumerate(paragraphs)\<close>: \<open>Inl b\<close> is the early \<^verbatim>\<open>return b\<close>, \<open>Inr n\<close>
  the value of \<^verbatim>\<open>num_paragraphs\<close> when the loop ends.\<close>

fun paragraph_loop :: "int \<Rightarrow> int \<Rightarrow> string list \<Rightarrow> int \<Rightarrow> bool + int" where
  "paragraph_loop index len [] num_paragraphs = Inr num_paragraphs"
| "paragraph_loop index len (paragraph # rest) num_paragraphs =
     (if strip paragraph = [] then
        (if index = 0 \<or> index = len - 1
         then paragraph_loop (index + 1) len rest (num_paragraphs - 1)
         else Inl False)
      else paragraph_loop (index + 1) len rest num_paragraphs)"

definition ParagraphChecker_check :: "string \<Rightarrow> int \<Rightarrow> exn + bool" where
  "ParagraphChecker_check val num_paragraphs_threshold =
     (let paragraphs = re_split_divider val;
          num_paragraphs = int (length paragraphs) in
      case paragraph_loop 0 (int (length paragraphs)) paragraphs num_paragraphs of
        Inl b \<Rightarrow> Inr b
      | Inr num_paragraphs' \<Rightarrow> Inr (num_paragraphs' = num_paragraphs_threshold))"

text \<open>The words of the specification: a piece is empty when nothing is left of it after
  trimming; the interior pieces are those between the first and the last; an empty first
  piece and an empty last piece are discarded.\<close>

definition blank :: "string \<Rightarrow> bool" where
  "blank s = (strip s = [])"

definition interior :: "'a list \<Rightarrow> 'a list" where
  "interior ps = butlast (tl ps)"

definition discard_empty_ends :: "string list \<Rightarrow> string list" where
  "discard_empty_ends ps =
     (let ps1 = (if blank (hd ps) then tl ps else ps) in
      if ps1 = [] then ps1 else if blank (last ps1) then butlast ps1 else ps1)"

definition number_paragraphs_spec :: "string \<Rightarrow> int \<Rightarrow> bool" where
  "number_paragraphs_spec val n =
     (let segments = re_split_divider val in
      if list_ex blank (interior segments) then False
      else int (length (discard_empty_ends segments)) = n)"


section \<open>Paragraphs separated by blank lines and the first word\<close>

text \<open>\<^verbatim>\<open>re.split(r"\n\n", value)\<close>: the leftmost pairs of newlines, not overlapping.\<close>

fun re_split_blank_line :: "string \<Rightarrow> string list" where
  "re_split_blank_line [] = [[]]"
| "re_split_blank_line [c] = [[c]]"
| "re_split_blank_line (a # b # cs) =
     (if a = newline \<and> b = newline then [] # re_split_blank_line cs
      else (let r = re_split_blank_line (b # cs) in (a # hd r) # tl r))"

text \<open>\<^verbatim>\<open>for paragraph in paragraphs: if not paragraph.strip(): num_paragraphs -= 1\<close>\<close>

fun count_loop :: "string list \<Rightarrow> int \<Rightarrow> int" where
  "count_loop [] num_paragraphs = num_paragraphs"
| "count_loop (paragraph # rest) num_paragraphs =
     (if strip paragraph = [] then count_loop rest (num_paragraphs - 1)
      else count_loop rest num_paragraphs)"

text \<open>\<^verbatim>\<open>xs[i]\<close> on a list: a negative index counts from the end, and an index outside
  \<^verbatim>\<open>-len(xs) .. len(xs)-1\<close> raises \<^verbatim>\<open>IndexError\<close>.\<close>

definition py_index :: "'a list \<Rightarrow> int \<Rightarrow> exn + 'a" where
  "py_index xs i =
     (if 0 \<le> i \<and> i < int (length xs) then Inr (xs ! nat i)
      else if - int (length xs) \<le> i \<and> i < 0 then Inr (xs ! nat (int (length xs) + i))
      else Inl IndexError)"

text \<open>\<^verbatim>\<open>s.split()\<close>: the maximal runs of characters that are not whitespace.\<close>

function split_whitespace :: "string \<Rightarrow> string list" where
  "split_whitespace s =
     (let s1 = dropWhile isspace s in
      if s1 = [] then []
      else takeWhile (\<lambda>c. \<not> isspace c) s1 # split_whitespace (dropWhile (\<lambda>c. \<not> isspace c) s1))"
  by pat_completeness auto

lemma dropWhile_twice_shorter:
  "dropWhile P s \<noteq> [] \<Longrightarrow> length (dropWhile (\<lambda>c. \<not> P c) (dropWhile P s)) < length s"
proof -
  assume ne: "dropWhile P s \<noteq> []"
  then obtain x xs where c: "dropWhile P s = x # xs" by (cases "dropWhile P s") auto
  then have "\<not> P x" by (metis hd_dropWhile list.sel(1) ne)
  then have "dropWhile (\<lambda>c. \<not> P c) (x # xs) = dropWhile (\<lambda>c. \<not> P c) xs" by simp
  moreover have "length (dropWhile (\<lambda>c. \<not> P c) xs) \<le> length xs" by (rule length_dropWhile_le)
  moreover have "length (x # xs) \<le> length s" unfolding c [symmetric] by (rule length_dropWhile_le)
  ultimately show ?thesis unfolding c by simp
qed

termination split_whitespace
  by (relation "measure length") (auto intro: dropWhile_twice_shorter)

declare split_whitespace.simps [simp del]

definition punctuation :: "char list" where
  "punctuation = [CHR ''.'', CHR '','', CHR ''?'', CHR ''!'', squote, dquote]"

text \<open>\<^verbatim>\<open>for letter in word: if letter in punctuation: break; first_word += letter.lower()\<close>\<close>

fun first_word_loop :: "string \<Rightarrow> string \<Rightarrow> string" where
  "first_word_loop [] first_word = first_word"
| "first_word_loop (letter # rest) first_word =
     (if letter \<in> set punctuation then first_word
      else first_word_loop rest (first_word @ [lower_char letter]))"

definition ParagraphFirstWordCheck_check ::
    "string \<Rightarrow> int \<Rightarrow> int \<Rightarrow> string \<Rightarrow> exn + bool" where
  "ParagraphFirstWordCheck_check val num_paragraphs_threshold nth_paragraph first_word_expected =
     (let paragraphs = re_split_blank_line val;
          num_paragraphs = count_loop paragraphs (int (length paragraphs)) in
      if nth_paragraph \<le> num_paragraphs then
        (case py_index paragraphs (nth_paragraph - 1) of
           Inl e \<Rightarrow> Inl e
         | Inr p \<Rightarrow>
             (let paragraph = strip p in
              if paragraph = [] then Inr False
              else
                (case py_index (split_whitespace paragraph) 0 of
                   Inl e \<Rightarrow> Inl e
                 | Inr w \<Rightarrow>
                     (let word = strip w;
                          word = lstrip_chars [squote] word;
                          word = lstrip_chars [dquote] word;
                          first_word = first_word_loop word []
                      in Inr (num_paragraphs = num_paragraphs_threshold
                              \<and> first_word = first_word_expected)))))
      else Inr False)"

text \<open>What the check computes, in the words of the specification: the paragraphs that
  count are the non-empty ones; the first token of a paragraph exists when the paragraph is
  not empty; \<open>normalize_token\<close> strips the leading single quotes, then the leading double
  quotes, cuts at the first character of \<open>punctuation\<close> and lowers.\<close>

definition nonempty_count :: "string list \<Rightarrow> int" where
  "nonempty_count ps = int (length (filter (\<lambda>p. \<not> blank p) ps))"

definition first_token :: "string \<Rightarrow> string option" where
  "first_token p =
     (if blank p then None else Some (takeWhile (\<lambda>c. \<not> isspace c) (dropWhile isspace p)))"

definition normalize_token :: "string \<Rightarrow> string" where
  "normalize_token w =
     lower (takeWhile (\<lambda>c. c \<notin> set punctuation)
              (dropWhile (\<lambda>c. c = dquote) (dropWhile (\<lambda>c. c = squote) w)))"

definition nth_paragraph_first_word_spec :: "string \<Rightarrow> int \<Rightarrow> int \<Rightarrow> string \<Rightarrow> bool" where
  "nth_paragraph_first_word_spec val num n first_word_expected =
     (let paragraphs = re_split_blank_line val in
      if nonempty_count paragraphs < n then False
      else nonempty_count paragraphs = num
           \<and> map_option normalize_token (first_token (paragraphs ! (nat n - 1)))
               = Some first_word_expected)"

text \<open>The specification as it is worded: the leading quotes of the token, of either kind
  and in any order, are stripped.\<close>

definition normalize_token_as_specified :: "string \<Rightarrow> string" where
  "normalize_token_as_specified w =
     lower (takeWhile (\<lambda>c. c \<notin> set punctuation)
              (dropWhile (\<lambda>c. c \<in> set [squote, dquote]) w))"

definition nth_paragraph_first_word_as_specified ::
    "string \<Rightarrow> int \<Rightarrow> int \<Rightarrow> string \<Rightarrow> bool" where
  "nth_paragraph_first_word_as_specified val num n first_word_expected =
     (let paragraphs = re_split_blank_line val in
      if nonempty_count paragraphs < n then False
      else nonempty_count paragraphs = num
           \<and> map_option normalize_token_as_specified (first_token (paragraphs ! (nat n - 1)))
               = Some first_word_expected)"



section \<open>The end phrase\<close>






section \<open>Language detection\<close>

text \<open>
  \<^verbatim>\<open>langdetect.detect\<close> is an external library: a parameter \<open>detect\<close> that returns a language
  code or raises. The three checkers catch \<^verbatim>\<open>LangDetectException\<close> only; any other exception
  propagates. In the two case checkers the detector is the right operand of \<^verbatim>\<open>and\<close>: it runs
  only when \<^verbatim>\<open>value.isupper()\<close> (\<^verbatim>\<open>value.islower()\<close>) is true.
\<close>

definition ResponseLanguageChecker_check ::
    "(string \<Rightarrow> exn + string) \<Rightarrow> string \<Rightarrow> string \<Rightarrow> exn + bool" where
  "ResponseLanguageChecker_check detect val language =
     (case detect val of
        Inr code \<Rightarrow> Inr (code = language)
      | Inl LangDetectException \<Rightarrow> Inr False
      | Inl e \<Rightarrow> Inl e)"

definition CapitalLettersEnglishChecker_check ::
    "(string \<Rightarrow> exn + string) \<Rightarrow> string \<Rightarrow> exn + bool" where
  "CapitalLettersEnglishChecker_check detect val =
     (if isupper val then
        (case detect val of
           Inr code \<Rightarrow> Inr (code = ''en'')
         | Inl LangDetectException \<Rightarrow> Inr True
         | Inl e \<Rightarrow> Inl e)
      else Inr False)"

definition LowercaseLettersEnglishChecker_check ::
    "(string \<Rightarrow> exn + string) \<Rightarrow> string \<Rightarrow> exn + bool" where
  "LowercaseLettersEnglishChecker_check detect val =
     (if islower val then
        (case detect val of
           Inr code \<Rightarrow> Inr (code = ''en'')
         | Inl LangDetectException \<Rightarrow> Inr True
         | Inl e \<Rightarrow> Inl e)
      else Inr False)"

text \<open>A detector that fails on every text, as the library does on a text without letters.\<close>

definition failing_detect :: "string \<Rightarrow> exn + string" where
  "failing_detect text = Inl LangDetectException"

section \<open>The conflict table\<close>

text \<open>
  \<^verbatim>\<open>conflict_make\<close> of \<^verbatim>\<open>src/src/instructions_registry.py\<close> works on a \<^verbatim>\<open>dict\<close> from ids to
  \<^verbatim>\<open>set\<close> objects and mutates these objects. Two keys of the dict may hold the same set
  object, so the sets live in a store: the dict, an association list in insertion order,
  maps an id to the address of its set, and the store maps an address to the contents of
  the set there, a list without repetition in the order an iteration visits it.
  \<^verbatim>\<open>s.add(x)\<close> is \<open>List.insert\<close> at the address of \<^verbatim>\<open>s\<close>. The function never adds or removes a
  key, so the dict itself stays as it is and only the store changes; it returns the dict it
  was given.

  \<^verbatim>\<open>for k in conflicts[key]\<close> iterates the set object at the address of \<^verbatim>\<open>key\<close>. The iterator
  remembers the size of the set when it is created and every call for the next element,
  the last one that ends the loop included, raises \<^verbatim>\<open>RuntimeError\<close> (set changed size during
  iteration) when the size is no longer that. The body \<^verbatim>\<open>conflicts[k].add(key)\<close> can change that
  very set, when \<^verbatim>\<open>k\<close> holds the same object as \<^verbatim>\<open>key\<close>. As long as no error is raised the
  set under iteration is unchanged, so the elements visited are those it had at the start.
  \<^verbatim>\<open>conflicts[k]\<close> raises \<^verbatim>\<open>KeyError\<close> when \<^verbatim>\<open>k\<close> is not a key.
\<close>

type_synonym addr = nat
type_synonym store = "addr \<Rightarrow> string list"
type_synonym pydict = "(string \<times> addr) list"

definition empty_store :: store where
  "empty_store a = []"

fun inner_loop :: "pydict \<Rightarrow> string \<Rightarrow> addr \<Rightarrow> nat \<Rightarrow> string list \<Rightarrow> store \<Rightarrow> exn + store" where
  "inner_loop conflicts key a used [] h =
     (if length (h a) = used then Inr h else Inl RuntimeError)"
| "inner_loop conflicts key a used (k # ks) h =
     (if length (h a) = used then
        (case map_of conflicts k of
           None \<Rightarrow> Inl (KeyError k)
         | Some b \<Rightarrow> inner_loop conflicts key a used ks (h(b := List.insert key (h b))))
      else Inl RuntimeError)"

fun outer_loop :: "pydict \<Rightarrow> string list \<Rightarrow> store \<Rightarrow> exn + store" where
  "outer_loop conflicts [] h = Inr h"
| "outer_loop conflicts (key # keys) h =
     (case map_of conflicts key of
        None \<Rightarrow> Inl (KeyError key)
      | Some a \<Rightarrow>
          (case inner_loop conflicts key a (length (h a)) (h a) h of
             Inl e \<Rightarrow> Inl e
           | Inr h1 \<Rightarrow> outer_loop conflicts keys (h1(a := List.insert key (h1 a)))))"

text \<open>The call returns the dict it was given, with the store as the loops left it.\<close>

definition conflict_make :: "pydict \<Rightarrow> store \<Rightarrow> exn + pydict \<times> store" where
  "conflict_make conflicts h =
     (case outer_loop conflicts (map fst conflicts) h of
        Inl e \<Rightarrow> Inl e
      | Inr h1 \<Rightarrow> Inr (conflicts, h1))"

text \<open>\<^verbatim>\<open>conflict_make(conflict_make(T))\<close>: an exception of the inner call propagates.\<close>

definition conflict_make_twice :: "pydict \<Rightarrow> store \<Rightarrow> exn + pydict \<times> store" where
  "conflict_make_twice conflicts h =
     (case conflict_make conflicts h of
        Inl e \<Rightarrow> Inl e
      | Inr (conflicts1, h1) \<Rightarrow> conflict_make conflicts1 h1)"

text \<open>The conflict set of an id in a table (empty when the id is not a key), the conflict
  set of an id in the outcome of a call, and the properties of a table: every id named in a
  conflict set is a key; no two keys hold the same set object; every key conflicts with
  itself; if \<open>a\<close> conflicts with \<open>b\<close> then \<open>b\<close> conflicts with \<open>a\<close>; a table contains
  another one; two tables give every key the same conflicts.\<close>

definition conflicts_of :: "pydict \<Rightarrow> store \<Rightarrow> string \<Rightarrow> string list" where
  "conflicts_of d h k = (case map_of d k of None \<Rightarrow> [] | Some a \<Rightarrow> h a)"

definition outcome_conflicts :: "exn + pydict \<times> store \<Rightarrow> string \<Rightarrow> exn + string set" where
  "outcome_conflicts r k =
     (case r of Inl e \<Rightarrow> Inl e | Inr (d, h) \<Rightarrow> Inr (set (conflicts_of d h k)))"

definition closed_table :: "pydict \<Rightarrow> store \<Rightarrow> bool" where
  "closed_table d h =
     list_all (\<lambda>a. list_all (\<lambda>b. b \<in> set (map fst d)) (conflicts_of d h a)) (map fst d)"

definition unshared :: "pydict \<Rightarrow> bool" where
  "unshared d = distinct (map snd d)"

definition reflexive_table :: "pydict \<Rightarrow> store \<Rightarrow> bool" where
  "reflexive_table d h = list_all (\<lambda>a. a \<in> set (conflicts_of d h a)) (map fst d)"

definition symmetric_table :: "pydict \<Rightarrow> store \<Rightarrow> bool" where
  "symmetric_table d h =
     list_all (\<lambda>a. list_all (\<lambda>b. a \<in> set (conflicts_of d h b)) (conflicts_of d h a))
       (map fst d)"

definition extends_table :: "pydict \<Rightarrow> store \<Rightarrow> store \<Rightarrow> bool" where
  "extends_table d h1 h =
     list_all (\<lambda>a. list_all (\<lambda>b. b \<in> set (conflicts_of d h1 a)) (conflicts_of d h a))
       (map fst d)"

definition same_conflicts :: "pydict \<Rightarrow> store \<Rightarrow> store \<Rightarrow> bool" where
  "same_conflicts d h1 h =
     list_all (\<lambda>a. set (conflicts_of d h1 a) = set (conflicts_of d h a)) (map fst d)"


section \<open>The JSON format\<close>

text \<open>
  \<^verbatim>\<open>JsonFormat.check_following\<close> removes the code fences and calls \<^verbatim>\<open>json.loads\<close>, a library
  function: a parameter that returns or raises. Only \<^verbatim>\<open>ValueError\<close> is caught.
\<close>

definition removeprefix :: "string \<Rightarrow> string \<Rightarrow> string" where
  "removeprefix p s = (if take (length p) s = p then drop (length p) s else s)"

definition removesuffix :: "string \<Rightarrow> string \<Rightarrow> string" where
  "removesuffix p s =
     (if p \<noteq> [] \<and> endswith s p then take (length s - length p) s else s)"

definition JsonFormat_check :: "(string \<Rightarrow> exn + unit) \<Rightarrow> string \<Rightarrow> exn + bool" where
  "JsonFormat_check json_loads val =
     (let val1 = strip (removesuffix ''```'' (removeprefix ''```'' (removeprefix ''```JSON''
                   (removeprefix ''```Json'' (removeprefix ''```json'' (strip val))))))
      in case json_loads val1 of
           Inr u \<Rightarrow> Inr True
         | Inl ValueError \<Rightarrow> Inr False
         | Inl e \<Rightarrow> Inl e)"


section \<open>Properties\<close>

subsection \<open>The comparator checkers\<close>

lemma relations_distinct:
  "''at most'' \<noteq> ''at least''" "''at most'' \<noteq> ''around''" "''at most'' \<noteq> ''less than''"
  "''at least'' \<noteq> ''around''" "''at least'' \<noteq> ''less than''" "''around'' \<noteq> ''less than''"
  by simp_all

lemma NumberOfSentences_relations:
  "NumberOfSentences_check cs v t ''at most'' = Inr (PyBool (cs v \<le> t))"
  "NumberOfSentences_check cs v t ''at least'' = Inr (PyBool (t \<le> cs v))"
  "NumberOfSentences_check cs v t ''around'' = Inr (PyBool (\<bar>cs v - t\<bar> \<le> 2))"
  "NumberOfSentences_check cs v t ''less than'' = Inr (PyBool (cs v < t))"
  by (simp_all add: NumberOfSentences_check_def)

lemma KeywordFrequencyChecker_relations:
  "KeywordFrequencyChecker_check cm v k t ''at most'' = Inr (PyBool (cm (strip k) v \<le> t))"
  "KeywordFrequencyChecker_check cm v k t ''at least'' = Inr (PyBool (t \<le> cm (strip k) v))"
  "KeywordFrequencyChecker_check cm v k t ''around'' = Inr (PyBool (\<bar>cm (strip k) v - t\<bar> \<le> 5))"
  "KeywordFrequencyChecker_check cm v k t ''less than'' = Inr (PyBool (cm (strip k) v < t))"
  by (simp_all add: KeywordFrequencyChecker_check_def)

lemma NumberOfWords_relations:
  "NumberOfWords_check cw v t ''at most'' = Inr (PyBool (cw v \<le> t))"
  "NumberOfWords_check cw v t ''at least'' = Inr (PyBool (t \<le> cw v))"
  "NumberOfWords_check cw v t ''around'' = Inr (PyBool (\<bar>cw v - t\<bar> \<le> 25))"
  "NumberOfWords_check cw v t ''less than'' = Inr (PyBool (cw v < t))"
  by (simp_all add: NumberOfWords_check_def)

lemma LetterFrequencyChecker_relations:
  "LetterFrequencyChecker_check v l t ''at most''
     = Inr (PyBool (counter_lookup (lower v) (lower (strip l)) \<le> t))"
  "LetterFrequencyChecker_check v l t ''at least''
     = Inr (PyBool (t \<le> counter_lookup (lower v) (lower (strip l))))"
  "LetterFrequencyChecker_check v l t ''around''
     = Inr (PyBool (\<bar>counter_lookup (lower v) (lower (strip l)) - t\<bar> \<le> 5))"
  "LetterFrequencyChecker_check v l t ''less than''
     = Inr (PyBool (counter_lookup (lower v) (lower (strip l)) < t))"
  by (simp_all add: LetterFrequencyChecker_check_def)

lemma CapitalWordFrequencyChecker_relations:
  "CapitalWordFrequencyChecker_check wt v t ''at most''
     = Inr (PyBool (int (length (filter isupper (wt v))) \<le> t))"
  "CapitalWordFrequencyChecker_check wt v t ''at least''
     = Inr (PyBool (t \<le> int (length (filter isupper (wt v)))))"
  "CapitalWordFrequencyChecker_check wt v t ''around''
     = Inr (PyBool (\<bar>int (length (filter isupper (wt v))) - t\<bar> \<le> 5))"
  "CapitalWordFrequencyChecker_check wt v t ''less than''
     = Inr (PyBool (int (length (filter isupper (wt v))) < t))"
  by (simp_all add: CapitalWordFrequencyChecker_check_def)

lemma recognised_relation_returns_bool:
  assumes "relation \<in> set COMPARISON_RELATION"
  shows "\<exists>b. NumberOfSentences_check cs v t relation = Inr (PyBool b)"
    and "\<exists>b. KeywordFrequencyChecker_check cm v k t relation = Inr (PyBool b)"
    and "\<exists>b. NumberOfWords_check cw v t relation = Inr (PyBool b)"
    and "\<exists>b. LetterFrequencyChecker_check v l t relation = Inr (PyBool b)"
    and "\<exists>b. CapitalWordFrequencyChecker_check wt v t relation = Inr (PyBool b)"
  using assms
  by (auto simp: COMPARISON_RELATION_def NumberOfSentences_relations
      KeywordFrequencyChecker_relations NumberOfWords_relations
      LetterFrequencyChecker_relations CapitalWordFrequencyChecker_relations)

lemma unrecognised_relation_general:
  assumes "relation \<notin> set COMPARISON_RELATION"
  shows "NumberOfSentences_check cs v t relation = Inr PyNone"
    and "KeywordFrequencyChecker_check cm v k t relation = Inr PyNone"
    and "NumberOfWords_check cw v t relation = Inr PyNone"
    and "LetterFrequencyChecker_check v l t relation = Inr PyNone"
    and "CapitalWordFrequencyChecker_check wt v t relation = Inr PyNone"
  using assms
  by (simp_all add: COMPARISON_RELATION_def NumberOfSentences_check_def
      KeywordFrequencyChecker_check_def NumberOfWords_check_def
      LetterFrequencyChecker_check_def CapitalWordFrequencyChecker_check_def)

text \<open>
  Claim C1. An unrecognised relation must make a comparator checker fail fast with an
  error. The code does not: with the relation \<^verbatim>\<open>exactly\<close> each of the five comparator
  checkers runs off the end of its \<^verbatim>\<open>if/elif\<close> chain and returns \<^verbatim>\<open>None\<close> without raising.
\<close>

theorem unrecognised_relation_returns_None:
  "NumberOfSentences_check count_sentences ''Hello.'' 1 ''exactly'' = Inr PyNone
   \<and> KeywordFrequencyChecker_check count_matches ''Hello.'' ''hello'' 1 ''exactly'' = Inr PyNone
   \<and> NumberOfWords_check count_words ''Hello.'' 1 ''exactly'' = Inr PyNone
   \<and> LetterFrequencyChecker_check ''Hello.'' ''l'' 2 ''exactly'' = Inr PyNone
   \<and> CapitalWordFrequencyChecker_check word_tokenize ''Hello.'' 0 ''exactly'' = Inr PyNone"
  by (simp add: NumberOfSentences_check_def KeywordFrequencyChecker_check_def
      NumberOfWords_check_def LetterFrequencyChecker_check_def
      CapitalWordFrequencyChecker_check_def)

text \<open>
  Claim C2. For every measured count and every integer threshold, each comparator checker
  returns \<^verbatim>\<open>True\<close> under \<^verbatim>\<open>at most\<close> iff count \<open>\<le>\<close> threshold, under \<^verbatim>\<open>at least\<close> iff
  count \<open>\<ge>\<close> threshold, under \<^verbatim>\<open>around\<close> iff the distance is within the family window
  (2 for sentences, 25 for words, 5 for keyword, letter and capital-word counts), and under
  \<^verbatim>\<open>less than\<close> iff count \<open><\<close> threshold. At equality of count and threshold the first two
  hold and the last does not.
\<close>

theorem comparator_semantics:
  "NumberOfSentences_check cs v t ''at most'' = Inr (PyBool (cs v \<le> t))
   \<and> NumberOfSentences_check cs v t ''at least'' = Inr (PyBool (cs v \<ge> t))
   \<and> NumberOfSentences_check cs v t ''around'' = Inr (PyBool (\<bar>cs v - t\<bar> \<le> 2))
   \<and> NumberOfSentences_check cs v t ''less than'' = Inr (PyBool (cs v < t))
   \<and> NumberOfSentences_check cs v (cs v) ''at most'' = Inr (PyBool True)
   \<and> NumberOfSentences_check cs v (cs v) ''at least'' = Inr (PyBool True)
   \<and> NumberOfSentences_check cs v (cs v) ''less than'' = Inr (PyBool False)
   \<and> KeywordFrequencyChecker_check cm v k t ''at most'' = Inr (PyBool (cm (strip k) v \<le> t))
   \<and> KeywordFrequencyChecker_check cm v k t ''at least'' = Inr (PyBool (cm (strip k) v \<ge> t))
   \<and> KeywordFrequencyChecker_check cm v k t ''around''
       = Inr (PyBool (\<bar>cm (strip k) v - t\<bar> \<le> 5))
   \<and> KeywordFrequencyChecker_check cm v k t ''less than'' = Inr (PyBool (cm (strip k) v < t))
   \<and> NumberOfWords_check cw v t ''at most'' = Inr (PyBool (cw v \<le> t))
   \<and> NumberOfWords_check cw v t ''at least'' = Inr (PyBool (cw v \<ge> t))
   \<and> NumberOfWords_check cw v t ''around'' = Inr (PyBool (\<bar>cw v - t\<bar> \<le> 25))
   \<and> NumberOfWords_check cw v t ''less than'' = Inr (PyBool (cw v < t))
   \<and> LetterFrequencyChecker_check v l t ''at most''
       = Inr (PyBool (counter_lookup (lower v) (lower (strip l)) \<le> t))
   \<and> LetterFrequencyChecker_check v l t ''at least''
       = Inr (PyBool (counter_lookup (lower v) (lower (strip l)) \<ge> t))
   \<and> LetterFrequencyChecker_check v l t ''around''
       = Inr (PyBool (\<bar>counter_lookup (lower v) (lower (strip l)) - t\<bar> \<le> 5))
   \<and> LetterFrequencyChecker_check v l t ''less than''
       = Inr (PyBool (counter_lookup (lower v) (lower (strip l)) < t))
   \<and> CapitalWordFrequencyChecker_check wt v t ''at most''
       = Inr (PyBool (int (length (filter isupper (wt v))) \<le> t))
   \<and> CapitalWordFrequencyChecker_check wt v t ''at least''
       = Inr (PyBool (int (length (filter isupper (wt v))) \<ge> t))
   \<and> CapitalWordFrequencyChecker_check wt v t ''around''
       = Inr (PyBool (\<bar>int (length (filter isupper (wt v))) - t\<bar> \<le> 5))
   \<and> CapitalWordFrequencyChecker_check wt v t ''less than''
       = Inr (PyBool (int (length (filter isupper (wt v))) < t))"
  by (simp only: NumberOfSentences_relations KeywordFrequencyChecker_relations
      NumberOfWords_relations LetterFrequencyChecker_relations
      CapitalWordFrequencyChecker_relations order_refl less_irrefl simp_thms)


subsection \<open>Placeholders\<close>

lemma findall_empty_brackets:
  "findall_placeholders (concat (replicate n ''[]'')) = replicate n ''[]''"
  by (induction n) simp_all

text \<open>
  Claim C10. A literal \<^verbatim>\<open>[]\<close> is a placeholder: the response made of \<open>n\<close> copies of
  \<^verbatim>\<open>[]\<close> has exactly these \<open>n\<close> matches, and satisfies the constraint iff
  \<open>n\<close> is at least \<^verbatim>\<open>num_placeholders\<close>. (This holds for every \<open>n\<close>, zero included.)
\<close>

theorem empty_brackets_are_placeholders:
  "findall_placeholders (concat (replicate n ''[]'')) = replicate n ''[]''
   \<and> length (findall_placeholders (concat (replicate n ''[]''))) = n
   \<and> PlaceholderChecker_check (concat (replicate n ''[]'')) num_placeholders
       = Inr (int n \<ge> num_placeholders)"
proof (intro conjI)
  show m: "findall_placeholders (concat (replicate n ''[]'')) = replicate n ''[]''"
    by (rule findall_empty_brackets)
  then show "length (findall_placeholders (concat (replicate n ''[]''))) = n"
    by simp
  from m show "PlaceholderChecker_check (concat (replicate n ''[]'')) num_placeholders
       = Inr (int n \<ge> num_placeholders)"
    by (simp add: PlaceholderChecker_check_def)
qed


subsection \<open>Paragraphs separated by the markdown divider\<close>

lemma re_split_divider_nonempty: "re_split_divider s \<noteq> []"
  by (induction s rule: re_split_divider.induct) (auto simp: Let_def split: option.splits)

lemma strip_blank: "(strip p = []) = blank p"
  by (simp add: blank_def)

lemma paragraph_loop_tail:
  "1 \<le> i \<Longrightarrow> len = i + int (length mid) + 1 \<Longrightarrow>
   paragraph_loop i len (mid @ [y]) num
     = (if list_ex blank mid then Inl False else Inr (num - (if blank y then 1 else 0)))"
proof (induction mid arbitrary: i num)
  case Nil
  then show ?case by (simp add: strip_blank)
next
  case (Cons p mid)
  have step: "paragraph_loop (i + 1) len (mid @ [y]) m
     = (if list_ex blank mid then Inl False else Inr (m - (if blank y then 1 else 0)))" for m
    using Cons.prems by (intro Cons.IH) simp_all
  from Cons.prems have "i \<noteq> 0" "i \<noteq> len - 1" by simp_all
  then show ?case by (simp add: step strip_blank)
qed

lemma paragraph_loop_single:
  "paragraph_loop 0 1 [x] num = Inr (num - (if blank x then 1 else 0))"
  by (simp add: strip_blank)

lemma paragraph_loop_many:
  "len = int (length mid) + 2 \<Longrightarrow>
   paragraph_loop 0 len (x # mid @ [y]) num
     = (if list_ex blank mid then Inl False
        else Inr (num - (if blank x then 1 else 0) - (if blank y then 1 else 0)))"
  using paragraph_loop_tail [of 1 len mid y]
  by (simp add: strip_blank)

lemma spec_single:
  "interior [x] = []" "length (discard_empty_ends [x]) = (if blank x then 0 else 1)"
  by (simp_all add: interior_def discard_empty_ends_def)

lemma spec_many:
  "interior (x # mid @ [y]) = mid"
  "int (length (discard_empty_ends (x # mid @ [y])))
     = int (length mid) + 2 - (if blank x then 1 else 0) - (if blank y then 1 else 0)"
  by (simp_all add: interior_def discard_empty_ends_def butlast_append)

lemma ParagraphChecker_refines:
  "ParagraphChecker_check val n = Inr (number_paragraphs_spec val n)"
proof -
  let ?ps = "re_split_divider val"
  obtain x rest where ps: "?ps = x # rest"
    using re_split_divider_nonempty [of val] by (cases ?ps) auto
  show ?thesis
  proof (cases rest rule: rev_cases)
    case Nil
    with ps have "?ps = [x]" by simp
    then show ?thesis
      by (simp add: ParagraphChecker_check_def number_paragraphs_spec_def
          paragraph_loop_single spec_single del: paragraph_loop.simps)
  next
    case (snoc mid y)
    with ps have e: "?ps = x # mid @ [y]" by simp
    show ?thesis
      by (auto simp: ParagraphChecker_check_def number_paragraphs_spec_def e Let_def
          paragraph_loop_many spec_many simp del: paragraph_loop.simps)
  qed
qed

lemma divider_examples:
  "re_split_divider ''A***B***C'' = [''A'', ''B'', ''C'']"
  "re_split_divider ''***A***'' = [[], ''A'', []]"
  "re_split_divider ''A *** B'' = [''A'', ''B'']"
  by (simp_all add: match_divider_def isspace_def whitespace_chars_def)

lemma blank_examples: "blank []" "\<not> blank ''A''" "\<not> blank ''B''" "\<not> blank ''C''"
  by (simp_all add: blank_def strip_def isspace_def whitespace_chars_def)

lemma number_paragraphs_examples:
  "number_paragraphs_spec ''A***B***C'' n = (n = 3)"
  "number_paragraphs_spec ''***A***'' n = (n = 1)"
  "number_paragraphs_spec ''A *** B'' n = (n = 2)"
  unfolding number_paragraphs_spec_def divider_examples Let_def
  by (auto simp: interior_def discard_empty_ends_def blank_examples)

text \<open>
  Claim C5. For every response and every \<^verbatim>\<open>num_paragraphs\<close>, the check splits the response
  on the divider with the whitespace around it, returns \<^verbatim>\<open>False\<close> when an interior piece is
  empty, and otherwise returns whether the number of pieces left after discarding an empty
  first and an empty last piece equals \<^verbatim>\<open>num_paragraphs\<close>. The response \<^verbatim>\<open>A***B***C\<close> has 3
  paragraphs, \<^verbatim>\<open>***A***\<close> has 1, and whitespace around the divider is part of it.
\<close>

theorem number_paragraphs_check:
  "ParagraphChecker_check val n = Inr (number_paragraphs_spec val n)
   \<and> ParagraphChecker_check ''A***B***C'' n = Inr (n = 3)
   \<and> ParagraphChecker_check ''***A***'' n = Inr (n = 1)
   \<and> ParagraphChecker_check ''A *** B'' n = Inr (n = 2)"
proof (intro conjI)
  show "ParagraphChecker_check val n = Inr (number_paragraphs_spec val n)"
    by (rule ParagraphChecker_refines)
  show "ParagraphChecker_check ''A***B***C'' n = Inr (n = 3)"
    unfolding ParagraphChecker_refines number_paragraphs_examples ..
  show "ParagraphChecker_check ''***A***'' n = Inr (n = 1)"
    unfolding ParagraphChecker_refines number_paragraphs_examples ..
  show "ParagraphChecker_check ''A *** B'' n = Inr (n = 2)"
    unfolding ParagraphChecker_refines number_paragraphs_examples ..
qed

subsection \<open>Paragraphs separated by blank lines and the first word\<close>

lemma count_loop_eq:
  "count_loop ps m = m - int (length ps) + nonempty_count ps"
  by (induction ps arbitrary: m) (simp_all add: nonempty_count_def strip_blank)

lemma nonempty_count_le: "nonempty_count ps \<le> int (length ps)"
  by (simp add: nonempty_count_def)

lemma py_index_in_range:
  "1 \<le> n \<Longrightarrow> n \<le> int (length ps) \<Longrightarrow> py_index ps (n - 1) = Inr (ps ! (nat n - 1))"
  by (simp add: py_index_def nat_diff_distrib)

lemma takeWhile_not_append:
  "(\<And>x. x \<in> set ws \<Longrightarrow> P x) \<Longrightarrow>
   takeWhile (\<lambda>c. \<not> P c) (q @ ws) = takeWhile (\<lambda>c. \<not> P c) q"
  by (induction q) (simp_all add: takeWhile_eq_Nil_iff, cases ws, auto)

lemma rstrip_decompose:
  "q = rev (dropWhile P (rev q)) @ rev (takeWhile P (rev q))"
  by (metis rev_append rev_rev_ident takeWhile_dropWhile_id)

lemma takeWhile_rstrip:
  "takeWhile (\<lambda>c. \<not> P c) (rev (dropWhile P (rev q))) = takeWhile (\<lambda>c. \<not> P c) q"
proof -
  have "takeWhile (\<lambda>c. \<not> P c) (rev (dropWhile P (rev q)) @ rev (takeWhile P (rev q)))
        = takeWhile (\<lambda>c. \<not> P c) (rev (dropWhile P (rev q)))"
    by (rule takeWhile_not_append) (auto dest: set_takeWhileD)
  then show ?thesis using rstrip_decompose [of q P] by simp
qed

lemma dropWhile_strip: "dropWhile isspace (strip p) = strip p"
proof (cases "strip p")
  case Nil
  then show ?thesis by simp
next
  case (Cons x xs)
  let ?q = "dropWhile isspace p"
  have "?q \<noteq> []"
  proof
    assume e: "?q = []"
    have "strip p = []" unfolding strip_def e by simp
    with Cons show False by simp
  qed
  then have nsp: "\<not> isspace (hd ?q)" by (rule hd_dropWhile)
  have "strip p = rev (dropWhile isspace (rev ?q))" by (simp add: strip_def)
  moreover have "?q = rev (dropWhile isspace (rev ?q)) @ rev (takeWhile isspace (rev ?q))"
    by (rule rstrip_decompose)
  ultimately have "?q = strip p @ rev (takeWhile isspace (rev ?q))" by simp
  with Cons have "hd ?q = x" by (metis hd_append2 list.sel(1) list.distinct(1))
  with nsp Cons show ?thesis by simp
qed

lemma split_whitespace_strip:
  "\<not> blank p \<Longrightarrow>
   \<exists>ws. split_whitespace (strip p) = takeWhile (\<lambda>c. \<not> isspace c) (dropWhile isspace p) # ws"
proof -
  assume nb: "\<not> blank p"
  then have ne: "strip p \<noteq> []" by (simp add: blank_def)
  have "takeWhile (\<lambda>c. \<not> isspace c) (strip p)
        = takeWhile (\<lambda>c. \<not> isspace c) (dropWhile isspace p)"
    unfolding strip_def by (rule takeWhile_rstrip)
  with ne show ?thesis
    by (subst split_whitespace.simps) (simp add: dropWhile_strip Let_def)
qed

lemma strip_no_space: "(\<And>c. c \<in> set w \<Longrightarrow> \<not> isspace c) \<Longrightarrow> strip w = w"
proof -
  assume a: "\<And>c. c \<in> set w \<Longrightarrow> \<not> isspace c"
  have d: "dropWhile isspace xs = xs" if "\<And>c. c \<in> set xs \<Longrightarrow> \<not> isspace c" for xs
    using that by (cases xs) auto
  have "dropWhile isspace w = w" using a by (rule d)
  moreover have "dropWhile isspace (rev w) = rev w" using a by (intro d) simp
  ultimately show ?thesis by (simp add: strip_def)
qed

lemma strip_token: "strip (takeWhile (\<lambda>c. \<not> isspace c) s) = takeWhile (\<lambda>c. \<not> isspace c) s"
  by (rule strip_no_space) (auto dest: set_takeWhileD)

lemma first_word_loop_eq:
  "first_word_loop w acc = acc @ lower (takeWhile (\<lambda>c. c \<notin> set punctuation) w)"
  by (induction w arbitrary: acc) (simp_all add: lower_def)

lemma normalize_token_eq:
  "first_word_loop (lstrip_chars [dquote] (lstrip_chars [squote] w)) [] = normalize_token w"
  by (simp add: first_word_loop_eq normalize_token_def lstrip_chars_def)

lemma first_word_of_paragraph:
  assumes "\<not> blank p"
  shows "(case py_index (split_whitespace (strip p)) 0 of
            Inl e \<Rightarrow> Inl e
          | Inr w \<Rightarrow>
              (let word = strip w;
                   word = lstrip_chars [squote] word;
                   word = lstrip_chars [dquote] word;
                   first_word = first_word_loop word []
               in Inr (c \<and> first_word = fw)))
         = Inr (c \<and> map_option normalize_token (first_token p) = Some fw)"
proof -
  obtain ws where sw:
    "split_whitespace (strip p) = takeWhile (\<lambda>c. \<not> isspace c) (dropWhile isspace p) # ws"
    using split_whitespace_strip [OF assms] by blast
  show ?thesis
    using assms
    by (simp add: sw py_index_def strip_token normalize_token_eq first_token_def)
qed

text \<open>
  What the check computes. For every response, with the paragraph number counted from 1:
  the check splits the response at pairs of newlines, counts the paragraphs that are not
  empty, and returns \<^verbatim>\<open>True\<close> iff \<^verbatim>\<open>nth_paragraph\<close> does not exceed that count, the count
  equals \<^verbatim>\<open>num_paragraphs\<close>, and the paragraph at position \<^verbatim>\<open>nth_paragraph\<close> of the split (empty
  paragraphs keep their positions) has a first token which, with its leading single quotes
  and then its leading double quotes stripped, cut at the first of the characters
  \<^verbatim>\<open>. , ? ! ' "\<close> and lowered, equals \<^verbatim>\<open>first_word\<close>. The check does not raise there.
\<close>

lemma ParagraphFirstWordCheck_refines:
  assumes "1 \<le> n"
  shows "ParagraphFirstWordCheck_check val num n fw
         = Inr (nth_paragraph_first_word_spec val num n fw)"
proof -
  let ?ps = "re_split_blank_line val"
  define p where "p = ?ps ! (nat n - 1)"
  have cnt: "count_loop ?ps (int (length ?ps)) = nonempty_count ?ps"
    by (simp add: count_loop_eq)
  have spec: "nth_paragraph_first_word_spec val num n fw
     = (if nonempty_count ?ps < n then False
        else nonempty_count ?ps = num
             \<and> map_option normalize_token (first_token p) = Some fw)"
    by (simp add: nth_paragraph_first_word_spec_def p_def Let_def)
  show ?thesis
  proof (cases "n \<le> nonempty_count ?ps")
    case False
    then show ?thesis
      by (simp add: ParagraphFirstWordCheck_check_def spec cnt Let_def)
  next
    case True
    then have "n \<le> int (length ?ps)" using nonempty_count_le [of ?ps] by simp
    with assms have idx: "py_index ?ps (n - 1) = Inr p"
      unfolding p_def by (rule py_index_in_range)
    have code: "ParagraphFirstWordCheck_check val num n fw
      = (if strip p = [] then Inr False
         else (case py_index (split_whitespace (strip p)) 0 of
            Inl e \<Rightarrow> Inl e
          | Inr w \<Rightarrow>
              (let word = strip w;
                   word = lstrip_chars [squote] word;
                   word = lstrip_chars [dquote] word;
                   first_word = first_word_loop word []
               in Inr (nonempty_count ?ps = num \<and> first_word = fw))))"
      using True unfolding ParagraphFirstWordCheck_check_def Let_def cnt idx by simp
    show ?thesis
    proof (cases "blank p")
      case True
      with \<open>n \<le> nonempty_count ?ps\<close> show ?thesis
        unfolding code spec by (simp add: strip_blank first_token_def)
    next
      case False
      with \<open>n \<le> nonempty_count ?ps\<close> show ?thesis
        unfolding code spec by (simp add: strip_blank first_word_of_paragraph)
    qed
  qed
qed

lemma ParagraphFirstWordCheck_refines_example:
  "ParagraphFirstWordCheck_check
       ([dquote] @ ''Hello, world'' @ [newline, newline] @ ''b c'') 2 1 ''hello''
     = Inr (nth_paragraph_first_word_spec
       ([dquote] @ ''Hello, world'' @ [newline, newline] @ ''b c'') 2 1 ''hello'')
   \<and> nth_paragraph_first_word_spec
       ([dquote] @ ''Hello, world'' @ [newline, newline] @ ''b c'') 2 1 ''hello''"
proof -
  have h: "(1::int) \<le> 1" by simp
  have s: "nth_paragraph_first_word_spec
       ([dquote] @ ''Hello, world'' @ [newline, newline] @ ''b c'') 2 1 ''hello''"
    by code_simp
  from ParagraphFirstWordCheck_refines [OF h] s show ?thesis by (rule conjI)
qed

text \<open>The two ways of stripping the leading quotes agree on every token except those in
  which a single quote comes right after the quotes that the code strips.\<close>

lemma dropWhile_weaker:
  "(\<And>x. P x \<Longrightarrow> Q x) \<Longrightarrow> dropWhile Q (dropWhile P xs) = dropWhile Q xs"
  by (induction xs) auto

lemma normalize_token_agrees:
  assumes "dropWhile (\<lambda>c. c = dquote) (dropWhile (\<lambda>c. c = squote) w) = r"
    and "r = [] \<or> hd r \<noteq> squote"
  shows "normalize_token w = normalize_token_as_specified w"
proof -
  let ?Q = "\<lambda>c. c \<in> set [squote, dquote]"
  have "dropWhile ?Q w = dropWhile ?Q (dropWhile (\<lambda>c. c = squote) w)"
    by (rule dropWhile_weaker [symmetric]) simp
  also have "\<dots> = dropWhile ?Q r"
    unfolding assms(1) [symmetric] by (rule dropWhile_weaker [symmetric]) simp
  also have "\<dots> = r"
  proof (cases r)
    case Nil
    then show ?thesis by simp
  next
    case (Cons x xs)
    have "r \<noteq> []" using Cons by simp
    then have "\<not> hd r = dquote"
      unfolding assms(1) [symmetric] by (rule hd_dropWhile)
    with assms(2) Cons show ?thesis by simp
  qed
  finally show ?thesis
    by (simp add: normalize_token_def normalize_token_as_specified_def assms(1))
qed

lemma ParagraphFirstWordCheck_as_specified_elsewhere:
  assumes "1 \<le> n"
    and "\<And>w. first_token (re_split_blank_line val ! (nat n - 1)) = Some w
            \<Longrightarrow> normalize_token w = normalize_token_as_specified w"
  shows "ParagraphFirstWordCheck_check val num n fw
         = Inr (nth_paragraph_first_word_as_specified val num n fw)"
proof -
  have eq: "map_option normalize_token (first_token (re_split_blank_line val ! (nat n - 1)))
      = map_option normalize_token_as_specified
          (first_token (re_split_blank_line val ! (nat n - 1)))"
    using assms(2) by (cases "first_token (re_split_blank_line val ! (nat n - 1))") auto
  have "nth_paragraph_first_word_spec val num n fw
      = nth_paragraph_first_word_as_specified val num n fw"
    unfolding nth_paragraph_first_word_spec_def nth_paragraph_first_word_as_specified_def
      Let_def eq ..
  with ParagraphFirstWordCheck_refines [OF assms(1)] show ?thesis by simp
qed

text \<open>
  Claim C6. The check is to return \<^verbatim>\<open>True\<close> iff the count of non-empty paragraphs equals
  \<^verbatim>\<open>num_paragraphs\<close> and the first token of the paragraph at \<^verbatim>\<open>nth_paragraph\<close>, with its leading
  quotes stripped, cut at the first punctuation character and lowered, equals
  \<^verbatim>\<open>first_word\<close>. The code misses one case: it strips the single quotes first and the double
  quotes after, so on a first token that starts with a double quote followed by a single
  quote the single quote stays and the first word comes out empty. The response
  \<^verbatim>\<open>"'Hello world\<close> with one paragraph required and the first word \<^verbatim>\<open>hello\<close> is rejected, while
  the same response with the two quotes in the other order is accepted, as the claim says
  both are.
\<close>

theorem ParagraphFirstWordCheck_mixed_quotes:
  "ParagraphFirstWordCheck_check ([dquote, squote] @ ''Hello world'') 1 1 ''hello'' = Inr False
   \<and> ParagraphFirstWordCheck_check ([squote, dquote] @ ''Hello world'') 1 1 ''hello'' = Inr True
   \<and> nth_paragraph_first_word_as_specified ([dquote, squote] @ ''Hello world'') 1 1 ''hello''
       = True
   \<and> nth_paragraph_first_word_as_specified ([squote, dquote] @ ''Hello world'') 1 1 ''hello''
       = True"
  by code_simp

text \<open>A paragraph number below 1 is read by Python as an index from the end, and can
  raise: with one paragraph, \<^verbatim>\<open>nth_paragraph = -1\<close> asks for \<^verbatim>\<open>paragraphs[-2]\<close>.\<close>

lemma ParagraphFirstWordCheck_negative_index:
  "ParagraphFirstWordCheck_check ''hello'' 1 (- 1) ''hello'' = Inl IndexError"
  by code_simp

subsection \<open>The end phrase\<close>





subsection \<open>Language detection\<close>

text \<open>
  Claim C4, as amended. When the detector fails on the response,
  \<^verbatim>\<open>language:response_language\<close> returns \<^verbatim>\<open>False\<close>, \<^verbatim>\<open>change_case:english_capital\<close> returns
  \<^verbatim>\<open>True\<close> exactly when the response is all uppercase and \<^verbatim>\<open>change_case:english_lowercase\<close>
  returns \<^verbatim>\<open>True\<close> exactly when it is all lowercase; otherwise the case checkers return
  \<^verbatim>\<open>False\<close> without running the detector.
\<close>

theorem detection_failure_outcomes:
  assumes "detect val = Inl LangDetectException"
  shows "ResponseLanguageChecker_check detect val language = Inr False
         \<and> CapitalLettersEnglishChecker_check detect val = Inr (isupper val)
         \<and> LowercaseLettersEnglishChecker_check detect val = Inr (islower val)"
  using assms
  by (simp add: ResponseLanguageChecker_check_def CapitalLettersEnglishChecker_check_def
      LowercaseLettersEnglishChecker_check_def)

theorem detection_failure_outcomes_witness:
  "failing_detect ''HELLO'' = Inl LangDetectException
   \<and> ResponseLanguageChecker_check failing_detect ''HELLO'' ''en'' = Inr False
   \<and> CapitalLettersEnglishChecker_check failing_detect ''HELLO'' = Inr True
   \<and> LowercaseLettersEnglishChecker_check failing_detect ''HELLO'' = Inr False"
proof -
  have h: "failing_detect ''HELLO'' = Inl LangDetectException"
    by (simp add: failing_detect_def)
  have u: "isupper ''HELLO'' = True" by code_simp
  have l: "islower ''HELLO'' = False" by code_simp
  from detection_failure_outcomes [of failing_detect "''HELLO''" "''en''", OF h] h show ?thesis
    unfolding u l by simp
qed

text \<open>The claim as stated fails on a response without letters: the detector fails on it
  and both case checkers return \<^verbatim>\<open>False\<close>.\<close>

theorem fail_open_counterexample:
  "failing_detect ''123'' = Inl LangDetectException
   \<and> CapitalLettersEnglishChecker_check failing_detect ''123'' = Inr False
   \<and> LowercaseLettersEnglishChecker_check failing_detect ''123'' = Inr False"
  by code_simp

subsection \<open>The conflict table\<close>

lemma key_iff_Some: "(k \<in> set (map fst d)) = (\<exists>a. map_of d k = Some a)"
  using map_of_eq_None_iff [of d k] by auto

lemma conflicts_of_Some: "map_of d k = Some a \<Longrightarrow> conflicts_of d h k = h a"
  by (simp add: conflicts_of_def)

lemma conflicts_of_member_key: "x \<in> set (conflicts_of d h k) \<Longrightarrow> k \<in> set (map fst d)"
  unfolding key_iff_Some by (cases "map_of d k") (auto simp: conflicts_of_def)

lemma unshared_same_key:
  assumes "unshared d" and "map_of d k1 = Some a" and "map_of d k2 = Some a"
  shows "k1 = k2"
proof -
  from assms(2,3) have m: "(k1, a) \<in> set d" "(k2, a) \<in> set d"
    by (auto dest: map_of_SomeD)
  from assms(1) have "inj_on snd (set d)"
    by (simp add: unshared_def distinct_map)
  from inj_onD [OF this _ m] show ?thesis by simp
qed

lemma conflicts_of_update:
  assumes "unshared d" and "map_of d k = Some b"
  shows "conflicts_of d (h(b := v)) x = (if x = k then v else conflicts_of d h x)"
proof (cases "map_of d x")
  case None
  with assms(2) show ?thesis by (auto simp: conflicts_of_def)
next
  case (Some c)
  show ?thesis
  proof (cases "c = b")
    case True
    with Some have "x = k" using unshared_same_key [OF assms(1) _ assms(2)] by simp
    with assms(2) show ?thesis by (simp add: conflicts_of_def)
  next
    case False
    with Some assms(2) have "x \<noteq> k" by auto
    with Some False show ?thesis by (simp add: conflicts_of_def)
  qed
qed

text \<open>The inner loop changes nothing when every element visited already holds the key.\<close>

lemma inner_loop_unchanged:
  assumes "\<And>k. k \<in> set ks \<Longrightarrow> key \<in> set (conflicts_of d h k)"
    and "length (h a) = used"
  shows "inner_loop d key a used ks h = Inr h"
  using assms(1)
proof (induction ks)
  case Nil
  then show ?case using assms(2) by simp
next
  case (Cons k ks)
  have m: "key \<in> set (conflicts_of d h k)" using Cons.prems by simp
  then obtain b where b: "map_of d k = Some b"
    using conflicts_of_member_key [OF m] unfolding key_iff_Some by blast
  with m have "key \<in> set (h b)" by (simp add: conflicts_of_Some)
  then have "h(b := List.insert key (h b)) = h" by simp
  moreover have "inner_loop d key a used ks h = Inr h" by (rule Cons.IH) (use Cons.prems in auto)
  ultimately show ?case using b assms(2) by simp
qed

text \<open>With one set object per key, the set under iteration stays as it is: the only
  element whose set is the iterated one is the key itself, which is then in it already.\<close>

lemma inner_step_keeps_iterated:
  assumes "unshared d" and "map_of d key = Some a" and "map_of d k = Some b"
    and "k \<in> set (h a)"
  shows "(h(b := List.insert key (h b))) a = h a"
proof (cases "b = a")
  case True
  then have "k = key" using unshared_same_key [OF assms(1) assms(3)] assms(2) by simp
  with assms(4) True show ?thesis by simp
next
  case False
  then show ?thesis by simp
qed

lemma inner_loop_result:
  assumes "unshared d" and "map_of d key = Some a"
    and "inner_loop d key a used ks h = Inr h'" and "set ks \<subseteq> set (h a)"
  shows "set ks \<subseteq> set (map fst d) \<and> h' a = h a
    \<and> (\<forall>x. set (conflicts_of d h' x)
            = set (conflicts_of d h x) \<union> (if x \<in> set ks then {key} else {}))"
  using assms(3,4)
proof (induction ks arbitrary: h)
  case Nil
  then show ?case by (simp split: if_splits)
next
  case (Cons k ks)
  from Cons.prems(1) have len: "length (h a) = used" by (simp split: if_splits)
  with Cons.prems(1) obtain b where b: "map_of d k = Some b"
    by (cases "map_of d k") auto
  then have kk: "k \<in> set (map fst d)" unfolding key_iff_Some by blast
  let ?h1 = "h(b := List.insert key (h b))"
  from Cons.prems(1) len b have run: "inner_loop d key a used ks ?h1 = Inr h'" by simp
  have keep: "?h1 a = h a"
    by (rule inner_step_keeps_iterated [OF assms(1,2) b]) (use Cons.prems(2) in simp)
  have sub: "set ks \<subseteq> set (?h1 a)" unfolding keep using Cons.prems(2) by simp
  from Cons.IH [OF run sub]
  have a: "set ks \<subseteq> set (map fst d)" and e: "h' a = ?h1 a"
    and c: "\<And>x. set (conflicts_of d h' x)
               = set (conflicts_of d ?h1 x) \<union> (if x \<in> set ks then {key} else {})"
    by blast+
  have "set (k # ks) \<subseteq> set (map fst d)" using a kk by simp
  moreover have "h' a = h a" using e keep by simp
  moreover have "set (conflicts_of d h' x)
      = set (conflicts_of d h x) \<union> (if x \<in> set (k # ks) then {key} else {})" for x
    unfolding c [of x] conflicts_of_update [OF assms(1) b]
    using conflicts_of_Some [OF b, of h] by auto
  ultimately show ?case by blast
qed

lemma inner_loop_succeeds:
  assumes "unshared d" and "map_of d key = Some a"
    and "set ks \<subseteq> set (map fst d)" and "set ks \<subseteq> set (h a)" and "length (h a) = used"
  shows "\<exists>h'. inner_loop d key a used ks h = Inr h'"
  using assms(3,4,5)
proof (induction ks arbitrary: h)
  case Nil
  then show ?case by simp
next
  case (Cons k ks)
  then have "k \<in> set (map fst d)" by simp
  then obtain b where b: "map_of d k = Some b" unfolding key_iff_Some by blast
  let ?h1 = "h(b := List.insert key (h b))"
  have keep: "?h1 a = h a"
    by (rule inner_step_keeps_iterated [OF assms(1,2) b]) (use Cons.prems(2) in simp)
  have "\<exists>h'. inner_loop d key a used ks ?h1 = Inr h'"
    by (rule Cons.IH) (use Cons.prems keep in auto)
  with b Cons.prems(3) show ?case by simp
qed

text \<open>One round of the outer loop.\<close>

lemma outer_round:
  assumes u: "unshared d" and k: "map_of d key = Some a"
    and i: "inner_loop d key a (length (h a)) (h a) h = Inr h1"
  shows "set (h a) \<subseteq> set (map fst d)
    \<and> (\<forall>x. set (conflicts_of d (h1(a := List.insert key (h1 a))) x)
            = set (conflicts_of d h x) \<union> (if x \<in> set (h a) \<or> x = key then {key} else {}))"
proof -
  from inner_loop_result [OF u k i]
  have sub: "set (h a) \<subseteq> set (map fst d)" and e: "h1 a = h a"
    and cs: "\<And>x. set (conflicts_of d h1 x)
               = set (conflicts_of d h x) \<union> (if x \<in> set (h a) then {key} else {})"
    by blast+
  have "set (conflicts_of d (h1(a := List.insert key (h1 a))) x)
            = set (conflicts_of d h x) \<union> (if x \<in> set (h a) \<or> x = key then {key} else {})" for x
    unfolding conflicts_of_update [OF u k]
    using cs [of x] cs [of key] conflicts_of_Some [OF k, of h1] by auto
  with sub show ?thesis by blast
qed

lemma outer_loop_result:
  assumes "unshared d" and "outer_loop d keys h = Inr h'"
    and "\<And>x. x \<in> P \<Longrightarrow> x \<in> set (conflicts_of d h x)
            \<and> (\<forall>y\<in>set (conflicts_of d h x). x \<in> set (conflicts_of d h y))"
  shows "(\<forall>x. set (conflicts_of d h x) \<subseteq> set (conflicts_of d h' x))
    \<and> (\<forall>x\<in>P \<union> set keys. x \<in> set (conflicts_of d h' x)
            \<and> (\<forall>y\<in>set (conflicts_of d h' x). x \<in> set (conflicts_of d h' y)))"
  using assms(2,3)
proof (induction keys arbitrary: h P)
  case Nil
  then show ?case by simp
next
  case (Cons key keys)
  from Cons.prems(1) obtain a where a: "map_of d key = Some a"
    by (cases "map_of d key") auto
  with Cons.prems(1) obtain h1 where i: "inner_loop d key a (length (h a)) (h a) h = Inr h1"
    by (cases "inner_loop d key a (length (h a)) (h a) h") auto
  let ?h2 = "h1(a := List.insert key (h1 a))"
  from outer_round [OF assms(1) a i]
  have cs: "\<And>x. set (conflicts_of d ?h2 x)
            = set (conflicts_of d h x) \<union> (if x \<in> set (h a) \<or> x = key then {key} else {})"
    by blast
  have run: "outer_loop d keys ?h2 = Inr h'" using Cons.prems(1) a i by simp
  have csk: "conflicts_of d h key = h a" using a by (rule conflicts_of_Some)
  have good: "x \<in> set (conflicts_of d ?h2 x)
            \<and> (\<forall>y\<in>set (conflicts_of d ?h2 x). x \<in> set (conflicts_of d ?h2 y))"
    if "x \<in> insert key P" for x
  proof (cases "x = key")
    case True
    then show ?thesis by (auto simp: cs csk)
  next
    case False
    with that have "x \<in> P" by simp
    from Cons.prems(2) [OF this] False show ?thesis by (auto simp: cs csk)
  qed
  from Cons.IH [where h = ?h2 and P = "insert key P", OF run good]
  have up: "\<And>x. set (conflicts_of d ?h2 x) \<subseteq> set (conflicts_of d h' x)"
    and all: "\<And>x. x \<in> insert key P \<union> set keys \<Longrightarrow> x \<in> set (conflicts_of d h' x)
            \<and> (\<forall>y\<in>set (conflicts_of d h' x). x \<in> set (conflicts_of d h' y))"
    by blast+
  have "set (conflicts_of d h x) \<subseteq> set (conflicts_of d ?h2 x)" for x
    unfolding cs by blast
  with up have "set (conflicts_of d h x) \<subseteq> set (conflicts_of d h' x)" for x
    by blast
  moreover have "x \<in> set (conflicts_of d h' x)
            \<and> (\<forall>y\<in>set (conflicts_of d h' x). x \<in> set (conflicts_of d h' y))"
    if "x \<in> P \<union> set (key # keys)" for x
    by (rule all) (use that in auto)
  ultimately show ?case by blast
qed

lemma outer_loop_succeeds:
  assumes "unshared d" and "set keys \<subseteq> set (map fst d)"
    and "\<And>x y. y \<in> set (conflicts_of d h x) \<Longrightarrow> y \<in> set (map fst d)"
  shows "\<exists>h'. outer_loop d keys h = Inr h'"
  using assms(2,3)
proof (induction keys arbitrary: h)
  case Nil
  then show ?case by simp
next
  case (Cons key keys)
  then have kk: "key \<in> set (map fst d)" by simp
  then obtain a where a: "map_of d key = Some a" unfolding key_iff_Some by blast
  then have csk: "conflicts_of d h key = h a" by (rule conflicts_of_Some)
  have sub: "set (h a) \<subseteq> set (map fst d)" using Cons.prems(2) [of _ key] csk by auto
  obtain h1 where i: "inner_loop d key a (length (h a)) (h a) h = Inr h1"
    using inner_loop_succeeds [OF assms(1) a sub] by blast
  let ?h2 = "h1(a := List.insert key (h1 a))"
  from outer_round [OF assms(1) a i]
  have cs: "\<And>x. set (conflicts_of d ?h2 x)
            = set (conflicts_of d h x) \<union> (if x \<in> set (h a) \<or> x = key then {key} else {})"
    by blast
  have "set keys \<subseteq> set (map fst d)" using Cons.prems(1) by simp
  moreover have "y \<in> set (map fst d)" if "y \<in> set (conflicts_of d ?h2 x)" for x y
    using that Cons.prems(2) [of y x] kk unfolding cs by (auto split: if_splits)
  ultimately have "\<exists>h'. outer_loop d keys ?h2 = Inr h'" by (rule Cons.IH)
  with a i show ?case by simp
qed

lemma outer_loop_unchanged:
  assumes "\<And>x. x \<in> set keys \<Longrightarrow> x \<in> set (conflicts_of d h x)
            \<and> (\<forall>y\<in>set (conflicts_of d h x). x \<in> set (conflicts_of d h y))"
  shows "outer_loop d keys h = Inr h"
  using assms
proof (induction keys)
  case Nil
  then show ?case by simp
next
  case (Cons key keys)
  have g: "key \<in> set (conflicts_of d h key)"
    "\<And>y. y \<in> set (conflicts_of d h key) \<Longrightarrow> key \<in> set (conflicts_of d h y)"
    using Cons.prems [of key] by auto
  obtain a where a: "map_of d key = Some a"
    using conflicts_of_member_key [OF g(1)] unfolding key_iff_Some by blast
  then have csk: "conflicts_of d h key = h a" by (rule conflicts_of_Some)
  have i: "inner_loop d key a (length (h a)) (h a) h = Inr h"
    by (rule inner_loop_unchanged) (use g(2) csk in auto)
  have "key \<in> set (h a)" using g(1) csk by simp
  then have u: "h(a := List.insert key (h a)) = h" by simp
  have "outer_loop d keys h = Inr h" by (rule Cons.IH) (use Cons.prems in auto)
  with a i u show ?case by simp
qed

lemma closed_table_iff:
  "closed_table d h = (\<forall>x y. y \<in> set (conflicts_of d h x) \<longrightarrow> y \<in> set (map fst d))"
  unfolding closed_table_def list_all_iff
  using conflicts_of_member_key by blast

lemma reflexive_table_iff:
  "reflexive_table d h = (\<forall>x\<in>set (map fst d). x \<in> set (conflicts_of d h x))"
  by (simp add: reflexive_table_def list_all_iff)

lemma symmetric_table_iff:
  "symmetric_table d h
     = (\<forall>x y. y \<in> set (conflicts_of d h x) \<longrightarrow> x \<in> set (conflicts_of d h y))"
  unfolding symmetric_table_def list_all_iff
  using conflicts_of_member_key by blast

lemma extends_table_iff:
  "extends_table d h1 h = (\<forall>x. set (conflicts_of d h x) \<subseteq> set (conflicts_of d h1 x))"
  unfolding extends_table_def list_all_iff
  using conflicts_of_member_key by blast

lemma conflict_make_returns_argument:
  "conflict_make d h = Inr (d1, h1) \<Longrightarrow> d1 = d \<and> outer_loop d (map fst d) h = Inr h1"
  by (auto simp: conflict_make_def split: sum.splits)

lemma conflict_make_result:
  assumes "unshared d" and "conflict_make d h = Inr (d1, h1)"
  shows "d1 = d \<and> extends_table d h1 h \<and> reflexive_table d h1 \<and> symmetric_table d h1"
proof -
  from conflict_make_returns_argument [OF assms(2)]
  have d1: "d1 = d" and run: "outer_loop d (map fst d) h = Inr h1" by simp_all
  have "(\<forall>x. set (conflicts_of d h x) \<subseteq> set (conflicts_of d h1 x))
    \<and> (\<forall>x\<in>{} \<union> set (map fst d). x \<in> set (conflicts_of d h1 x)
            \<and> (\<forall>y\<in>set (conflicts_of d h1 x). x \<in> set (conflicts_of d h1 y)))"
    by (rule outer_loop_result [OF assms(1) run]) simp
  then have m: "\<And>x. set (conflicts_of d h x) \<subseteq> set (conflicts_of d h1 x)"
    and g: "\<And>x. x \<in> set (map fst d) \<Longrightarrow> x \<in> set (conflicts_of d h1 x)
            \<and> (\<forall>y\<in>set (conflicts_of d h1 x). x \<in> set (conflicts_of d h1 y))"
    by blast+
  have "extends_table d h1 h" unfolding extends_table_iff using m by blast
  moreover have "reflexive_table d h1" unfolding reflexive_table_iff using g by blast
  moreover have "symmetric_table d h1" unfolding symmetric_table_iff
  proof (intro allI impI)
    fix x y assume "y \<in> set (conflicts_of d h1 x)"
    moreover from this have "x \<in> set (map fst d)" by (rule conflicts_of_member_key)
    ultimately show "x \<in> set (conflicts_of d h1 y)" using g by blast
  qed
  ultimately show ?thesis using d1 by simp
qed

lemma conflict_make_unchanged:
  assumes "reflexive_table d h" and "symmetric_table d h"
  shows "conflict_make d h = Inr (d, h)"
proof -
  have "outer_loop d (map fst d) h = Inr h"
    by (rule outer_loop_unchanged)
      (use assms in \<open>auto simp: reflexive_table_iff symmetric_table_iff\<close>)
  then show ?thesis by (simp add: conflict_make_def)
qed

lemma conflict_make_succeeds:
  assumes "closed_table d h" and "unshared d"
  shows "\<exists>h1. conflict_make d h = Inr (d, h1)"
proof -
  have "\<exists>h1. outer_loop d (map fst d) h = Inr h1"
    by (rule outer_loop_succeeds [OF assms(2)])
      (use assms(1) in \<open>auto simp: closed_table_iff\<close>)
  then show ?thesis by (auto simp: conflict_make_def)
qed

lemma same_conflicts_refl: "same_conflicts d h h"
  by (simp add: same_conflicts_def list_all_iff)

lemma same_conflicts_iff:
  "same_conflicts d h1 h = (\<forall>x. set (conflicts_of d h1 x) = set (conflicts_of d h x))"
proof
  assume s: "same_conflicts d h1 h"
  show "\<forall>x. set (conflicts_of d h1 x) = set (conflicts_of d h x)"
  proof
    fix x
    show "set (conflicts_of d h1 x) = set (conflicts_of d h x)"
    proof (cases "x \<in> set (map fst d)")
      case True
      with s show ?thesis unfolding same_conflicts_def list_all_iff by blast
    next
      case False
      then have "map_of d x = None" by (simp add: map_of_eq_None_iff)
      then show ?thesis by (simp add: conflicts_of_def)
    qed
  qed
next
  assume "\<forall>x. set (conflicts_of d h1 x) = set (conflicts_of d h x)"
  then show "same_conflicts d h1 h" by (simp add: same_conflicts_def list_all_iff)
qed

lemma same_conflicts_properties:
  assumes "same_conflicts d h1 h"
  shows "reflexive_table d h = reflexive_table d h1"
    and "symmetric_table d h = symmetric_table d h1"
  using assms unfolding same_conflicts_iff reflexive_table_iff symmetric_table_iff
  by simp_all

text \<open>
  Claim C3, as amended. For every table in which every id named in a conflict set is a key
  and no two keys hold the same set object, \<^verbatim>\<open>conflict_make\<close> returns the dict it was given,
  and the table then contains every conflict of the input, every key conflicts with itself
  and the table is symmetric. The call is not pure: it adds the missing conflicts to the
  sets of its argument, which is left as it was exactly when it was reflexive and symmetric
  already.
\<close>

theorem conflict_make_closed_unshared:
  assumes "closed_table d h" and "unshared d"
  shows "\<exists>h1. conflict_make d h = Inr (d, h1)
           \<and> extends_table d h1 h \<and> reflexive_table d h1 \<and> symmetric_table d h1
           \<and> ((h1 = h) = (reflexive_table d h \<and> symmetric_table d h))
           \<and> (same_conflicts d h1 h = (reflexive_table d h \<and> symmetric_table d h))"
proof -
  from conflict_make_succeeds [OF assms]
  obtain h1 where r: "conflict_make d h = Inr (d, h1)" ..
  from conflict_make_result [OF assms(2) r]
  have p: "extends_table d h1 h" "reflexive_table d h1" "symmetric_table d h1" by simp_all
  have unch: "h1 = h" if "reflexive_table d h \<and> symmetric_table d h"
  proof -
    from that have "conflict_make d h = Inr (d, h)" by (simp add: conflict_make_unchanged)
    with r show ?thesis by simp
  qed
  have same: "reflexive_table d h \<and> symmetric_table d h" if "same_conflicts d h1 h"
    using same_conflicts_properties [OF that] p by simp
  have e1: "(h1 = h) = (reflexive_table d h \<and> symmetric_table d h)"
  proof
    assume "h1 = h"
    with p show "reflexive_table d h \<and> symmetric_table d h" by simp
  next
    assume "reflexive_table d h \<and> symmetric_table d h"
    then show "h1 = h" by (rule unch)
  qed
  have e2: "same_conflicts d h1 h = (reflexive_table d h \<and> symmetric_table d h)"
  proof
    assume "same_conflicts d h1 h"
    then show "reflexive_table d h \<and> symmetric_table d h" by (rule same)
  next
    assume "reflexive_table d h \<and> symmetric_table d h"
    then have "h1 = h" by (rule unch)
    then show "same_conflicts d h1 h" by (simp add: same_conflicts_refl)
  qed
  show ?thesis
    by (rule exI [of _ h1]) (intro conjI r p e1 e2)
qed

text \<open>
  Claim C9, as amended. For every table in which every id named in a conflict set is a key
  and no two keys hold the same set object, \<^verbatim>\<open>conflict_make\<close> returns a table on which a
  second call returns that same table with the same contents, so
  \<^verbatim>\<open>conflict_make(conflict_make(T))\<close> yields the table that \<^verbatim>\<open>conflict_make(T)\<close> yields.
\<close>

theorem conflict_make_idempotent_closed:
  assumes "closed_table d h" and "unshared d"
  shows "\<exists>h1. conflict_make d h = Inr (d, h1) \<and> conflict_make d h1 = Inr (d, h1)
           \<and> conflict_make_twice d h = conflict_make d h"
proof -
  from conflict_make_succeeds [OF assms]
  obtain h1 where r: "conflict_make d h = Inr (d, h1)" ..
  from conflict_make_result [OF assms(2) r]
  have "reflexive_table d h1" "symmetric_table d h1" by simp_all
  then have f: "conflict_make d h1 = Inr (d, h1)" by (rule conflict_make_unchanged)
  with r have "conflict_make_twice d h = conflict_make d h"
    by (simp add: conflict_make_twice_def)
  with r f show ?thesis by blast
qed

lemma conflict_make_returns_iff:
  assumes "unshared d"
  shows "(\<exists>h1. conflict_make d h = Inr (d, h1)) = closed_table d h"
proof
  assume "closed_table d h"
  then show "\<exists>h1. conflict_make d h = Inr (d, h1)" using assms by (rule conflict_make_succeeds)
next
  assume "\<exists>h1. conflict_make d h = Inr (d, h1)"
  then obtain h1 where r: "conflict_make d h = Inr (d, h1)" ..
  from conflict_make_result [OF assms r]
  have e: "extends_table d h1 h" and s: "symmetric_table d h1" by simp_all
  show "closed_table d h" unfolding closed_table_iff
  proof (intro allI impI)
    fix x y assume "y \<in> set (conflicts_of d h x)"
    then have "y \<in> set (conflicts_of d h1 x)" using e unfolding extends_table_iff by blast
    then have "x \<in> set (conflicts_of d h1 y)" using s unfolding symmetric_table_iff by blast
    then show "y \<in> set (map fst d)" by (rule conflicts_of_member_key)
  qed
qed

theorem conflict_make_closed_unshared_witness:
  "closed_table [(''a'', 0), (''b'', 1)] (empty_store(0 := [''b'']))
   \<and> unshared [(''a'', 0), (''b'', 1)]
   \<and> (\<exists>h1. conflict_make [(''a'', 0), (''b'', 1)] (empty_store(0 := [''b'']))
              = Inr ([(''a'', 0), (''b'', 1)], h1)
          \<and> extends_table [(''a'', 0), (''b'', 1)] h1 (empty_store(0 := [''b'']))
          \<and> reflexive_table [(''a'', 0), (''b'', 1)] h1
          \<and> symmetric_table [(''a'', 0), (''b'', 1)] h1
          \<and> ((h1 = empty_store(0 := [''b'']))
               = (reflexive_table [(''a'', 0), (''b'', 1)] (empty_store(0 := [''b'']))
                  \<and> symmetric_table [(''a'', 0), (''b'', 1)] (empty_store(0 := [''b'']))))
          \<and> (same_conflicts [(''a'', 0), (''b'', 1)] h1 (empty_store(0 := [''b'']))
               = (reflexive_table [(''a'', 0), (''b'', 1)] (empty_store(0 := [''b'']))
                  \<and> symmetric_table [(''a'', 0), (''b'', 1)] (empty_store(0 := [''b''])))))"
proof -
  have c: "closed_table [(''a'', 0), (''b'', 1)] (empty_store(0 := [''b'']))" by code_simp
  have u: "unshared [(''a'', 0), (''b'', 1)]" by code_simp
  from c u conflict_make_closed_unshared [OF c u] show ?thesis by (intro conjI)
qed

theorem conflict_make_idempotent_closed_witness:
  "closed_table [(''a'', 0), (''b'', 1), (''c'', 2)] (empty_store(0 := [''b''], 1 := [''c'']))
   \<and> unshared [(''a'', 0), (''b'', 1), (''c'', 2)]
   \<and> (\<exists>h1. conflict_make [(''a'', 0), (''b'', 1), (''c'', 2)]
                (empty_store(0 := [''b''], 1 := [''c'']))
              = Inr ([(''a'', 0), (''b'', 1), (''c'', 2)], h1)
          \<and> conflict_make [(''a'', 0), (''b'', 1), (''c'', 2)] h1
              = Inr ([(''a'', 0), (''b'', 1), (''c'', 2)], h1)
          \<and> conflict_make_twice [(''a'', 0), (''b'', 1), (''c'', 2)]
                (empty_store(0 := [''b''], 1 := [''c'']))
              = conflict_make [(''a'', 0), (''b'', 1), (''c'', 2)]
                (empty_store(0 := [''b''], 1 := [''c''])))"
proof -
  have c: "closed_table [(''a'', 0), (''b'', 1), (''c'', 2)]
             (empty_store(0 := [''b''], 1 := [''c'']))" by code_simp
  have u: "unshared [(''a'', 0), (''b'', 1), (''c'', 2)]" by code_simp
  from c u conflict_make_idempotent_closed [OF c u] show ?thesis by (intro conjI)
qed

lemma example_raises:
  "conflict_make [(''a'', 0)] (empty_store(0 := [''b''])) = Inl (KeyError ''b'')"
  "conflict_make [(''a'', 0), (''b'', 0)] (empty_store(0 := [''b''])) = Inl RuntimeError"
  "conflict_make_twice [(''a'', 0)] (empty_store(0 := [''b''])) = Inl (KeyError ''b'')"
  by (simp_all add: conflict_make_twice_def conflict_make_def empty_store_def)

lemma example_outcomes:
  "outcome_conflicts
        (conflict_make [(''kp'', 0), (''k'', 0), (''x'', 1)]
           (empty_store(0 := [''k'', ''kp''], 1 := [''k'']))) ''kp''
       = Inr {''k'', ''kp'', ''x''}"
  "outcome_conflicts
        (conflict_make [(''kp'', 0), (''k'', 0), (''x'', 1)]
           (empty_store(0 := [''k'', ''kp''], 1 := [''k'']))) ''x''
       = Inr {''k'', ''x''}"
  "conflicts_of [(''a'', 0), (''b'', 1)] (empty_store(0 := [''b''])) ''b'' = []"
  "outcome_conflicts
        (conflict_make [(''a'', 0), (''b'', 1)] (empty_store(0 := [''b'']))) ''b''
       = Inr {''a'', ''b''}"
  "outcome_conflicts
        (conflict_make_twice [(''kp'', 0), (''k'', 0), (''x'', 1)]
           (empty_store(0 := [''k'', ''kp''], 1 := [''k'']))) ''x''
       = Inr {''k'', ''kp'', ''x''}"
  by code_simp+

text \<open>The claim as stated fails in each of its parts. A table that names an id which is
  not a key makes the call raise \<^verbatim>\<open>KeyError\<close>. A table in which \<^verbatim>\<open>a\<close> and \<^verbatim>\<open>b\<close> hold one set
  object, containing \<^verbatim>\<open>b\<close>, makes it raise \<^verbatim>\<open>RuntimeError\<close>. On a table in which \<^verbatim>\<open>kp\<close> and
  \<^verbatim>\<open>k\<close> hold one set object the call returns a table that is not symmetric: \<^verbatim>\<open>x\<close> is in the
  set of \<^verbatim>\<open>kp\<close> and \<^verbatim>\<open>kp\<close> is not in the set of \<^verbatim>\<open>x\<close>. And the call changes the table it is
  given: the set that the argument holds under \<^verbatim>\<open>b\<close> is empty before the call and holds
  \<^verbatim>\<open>a\<close> and \<^verbatim>\<open>b\<close> after it.\<close>

theorem conflict_make_counterexample:
  "conflict_make [(''a'', 0)] (empty_store(0 := [''b''])) = Inl (KeyError ''b'')
   \<and> conflict_make [(''a'', 0), (''b'', 0)] (empty_store(0 := [''b''])) = Inl RuntimeError
   \<and> outcome_conflicts
        (conflict_make [(''kp'', 0), (''k'', 0), (''x'', 1)]
           (empty_store(0 := [''k'', ''kp''], 1 := [''k'']))) ''kp''
       = Inr {''k'', ''kp'', ''x''}
   \<and> outcome_conflicts
        (conflict_make [(''kp'', 0), (''k'', 0), (''x'', 1)]
           (empty_store(0 := [''k'', ''kp''], 1 := [''k'']))) ''x''
       = Inr {''k'', ''x''}
   \<and> conflicts_of [(''a'', 0), (''b'', 1)] (empty_store(0 := [''b''])) ''b'' = []
   \<and> outcome_conflicts
        (conflict_make [(''a'', 0), (''b'', 1)] (empty_store(0 := [''b'']))) ''b''
       = Inr {''a'', ''b''}"
  by (intro conjI example_raises example_outcomes)

text \<open>The claim as stated, for every table, fails. On a table that names an id which is
  not a key no table is yielded: the call raises \<^verbatim>\<open>KeyError\<close>. On a table in which \<^verbatim>\<open>kp\<close> and
  \<^verbatim>\<open>k\<close> hold one set object both calls return, and the second one changes the table: it
  adds \<^verbatim>\<open>kp\<close> to the set of \<^verbatim>\<open>x\<close>.\<close>

theorem conflict_make_twice_counterexample:
  "conflict_make_twice [(''a'', 0)] (empty_store(0 := [''b''])) = Inl (KeyError ''b'')
   \<and> outcome_conflicts
        (conflict_make [(''kp'', 0), (''k'', 0), (''x'', 1)]
           (empty_store(0 := [''k'', ''kp''], 1 := [''k'']))) ''x''
       = Inr {''k'', ''x''}
   \<and> outcome_conflicts
        (conflict_make_twice [(''kp'', 0), (''k'', 0), (''x'', 1)]
           (empty_store(0 := [''k'', ''kp''], 1 := [''k'']))) ''x''
       = Inr {''k'', ''kp'', ''x''}"
  by (intro conjI example_raises example_outcomes)

subsection \<open>The JSON format\<close>

text \<open>The check raises exactly when \<^verbatim>\<open>json.loads\<close> raises something other than
  \<^verbatim>\<open>ValueError\<close>; whether it can is a fact of the library, not of this code.\<close>

lemma JsonFormat_check_total_iff:
  "(\<exists>b. JsonFormat_check json_loads val = Inr b)
     = (\<forall>e. json_loads (strip (removesuffix ''```'' (removeprefix ''```''
              (removeprefix ''```JSON'' (removeprefix ''```Json''
              (removeprefix ''```json'' (strip val))))))) = Inl e \<longrightarrow> e = ValueError)"
  by (auto simp: JsonFormat_check_def Let_def split: sum.splits exn.splits)

end
